theory Spec2Isabelle
  imports Main
begin

section \<open>Data model of \<^verbatim>\<open>mptt/utils.py\<close>\<close>

text \<open>
  Tree nodes are Python objects that the functions of \<^verbatim>\<open>mptt/utils.py\<close> read and
  mutate in place, so the model keeps them in a store: a node is a reference (a natural
  number) and the store maps every reference to the attributes the code touches.
  A Python reference is always valid, hence the store is a total function.
  An attribute that may be missing on the object (\<^verbatim>\<open>_cached_children\<close>) or hold
  \<^verbatim>\<open>None\<close> (the parent) is an \<open>option\<close>. Levels are Python integers.
\<close>

record node_obj =
  level :: int
  parent :: "nat option"
  cached_children :: "nat list option"
  mptt_use_cached_ancestors :: bool

type_synonym heap = "nat \<Rightarrow> node_obj"

text \<open>
  The argument of \<^verbatim>\<open>get_cached_trees\<close> is a list or a queryset. \<open>query\<close> is
  \<open>None\<close> when the object has no \<^verbatim>\<open>query\<close> attribute (a plain list) and
  \<open>Some b\<close> when it has one whose \<^verbatim>\<open>has_filters()\<close> returns \<open>b\<close>.
\<close>

record queryset =
  query :: "bool option"
  items :: "nat list"

datatype error = ValueError | IndexError | AttributeError | KeyError | StopIteration

section \<open>\<^verbatim>\<open>previous_current_next\<close>\<close>

text \<open>
  \<^verbatim>\<open>next(it)\<close> on an iterator: drops the first element, raises
  \<^verbatim>\<open>StopIteration\<close> when there is none.
\<close>

definition advance :: "'a list \<Rightarrow> error + 'a list" where
  "advance xs = (case xs of [] \<Rightarrow> Inl StopIteration | _ # r \<Rightarrow> Inr r)"

text \<open>
  The items are arbitrary Python values, so an item may itself be \<^verbatim>\<open>None\<close>: an
  item is an \<open>'a option\<close>, with \<open>None\<close> for Python's \<^verbatim>\<open>None\<close>. The sequence
  \<^verbatim>\<open>extend\<close> chains the items between two \<^verbatim>\<open>None\<close>, which are the same value
  as a \<^verbatim>\<open>None\<close> item. The three \<^verbatim>\<open>tee\<close> copies are three copies of the list,
  \<^verbatim>\<open>zip\<close> stops with the shortest.
\<close>

definition previous_current_next ::
    "'a option list \<Rightarrow> error + ('a option \<times> 'a option \<times> 'a option) list" where
  "previous_current_next its =
     (let extend = [None] @ its @ [None];
          prev = extend; cur = extend; nex = extend
      in case advance cur of Inl e \<Rightarrow> Inl e
         | Inr cur1 \<Rightarrow>
        (case advance nex of Inl e \<Rightarrow> Inl e
         | Inr nex1 \<Rightarrow>
        (case advance nex1 of Inl e \<Rightarrow> Inl e
         | Inr nex2 \<Rightarrow> Inr (zip prev (zip cur1 nex2)))))"

section \<open>\<^verbatim>\<open>tree_item_iterator\<close>\<close>

text \<open>
  The dictionary \<^verbatim>\<open>structure\<close> has at most the three keys below; a key that is not
  set is \<open>None\<close>, and reading it raises \<^verbatim>\<open>KeyError\<close>.
\<close>

record 'l structure_dict =
  new_level :: "bool option"
  closed_levels :: "int list option"
  ancestors :: "'l list option"

text \<open>\<^verbatim>\<open>list(range(start, stop, -1))\<close>: \<open>max 0 (start - stop)\<close> elements, counting down.\<close>

definition range_desc :: "int \<Rightarrow> int \<Rightarrow> int list" where
  "range_desc start stop = map (\<lambda>k. start - int k) [0 ..< nat (start - stop)]"

text \<open>
  The branch \<^verbatim>\<open>if previous: ... else: ...\<close> of the loop body (lines 87 to 107): it
  returns the updated dictionary and \<^verbatim>\<open>first_item_level\<close>. A model instance is
  truthy, so \<^verbatim>\<open>if previous\<close> tests for \<^verbatim>\<open>None\<close>. The slice
  \<^verbatim>\<open>xs[:-k]\<close> with \<open>k > 0\<close> keeps the first \<open>length xs - k\<close> elements.
\<close>

definition on_entry ::
    "heap \<Rightarrow> bool \<Rightarrow> (nat \<Rightarrow> 'l) \<Rightarrow> 'l structure_dict \<Rightarrow> int \<Rightarrow> nat option \<Rightarrow> int
      \<Rightarrow> error + ('l structure_dict \<times> int)" where
  "on_entry h anc callback st first_item_level previous current_level =
     (case previous of
        Some prev \<Rightarrow>
          (let st1 = st\<lparr>new_level := Some (level (h prev) < current_level)\<rparr> in
           if anc then
             (case closed_levels st1 of
                None \<Rightarrow> Inl KeyError
              | Some cl \<Rightarrow>
                 (case (if cl \<noteq> []
                        then (case ancestors st1 of
                                None \<Rightarrow> Inl KeyError
                              | Some a \<Rightarrow>
                                  Inr (st1\<lparr>ancestors := Some (take (length a - length cl) a)\<rparr>))
                        else Inr st1) of
                    Inl e \<Rightarrow> Inl e
                  | Inr st2 \<Rightarrow>
                      if new_level st2 = Some True
                      then (case ancestors st2 of
                              None \<Rightarrow> Inl KeyError
                            | Some a \<Rightarrow>
                                Inr (st2\<lparr>ancestors := Some (a @ [callback prev])\<rparr>,
                                     first_item_level))
                      else Inr (st2, first_item_level)))
           else Inr (st1, first_item_level))
      | None \<Rightarrow>
          (let st1 = st\<lparr>new_level := Some True\<rparr>;
               st2 = (if anc then st1\<lparr>ancestors := Some []\<rparr> else st1)
           in Inr (st2, current_level)))"

text \<open>The branch \<^verbatim>\<open>if next_: ... else: ...\<close> (lines 108 to 116).\<close>

definition on_exit ::
    "heap \<Rightarrow> 'l structure_dict \<Rightarrow> int \<Rightarrow> nat option \<Rightarrow> int \<Rightarrow> 'l structure_dict" where
  "on_exit h st first_item_level nxt current_level =
     (case nxt of
        Some nx \<Rightarrow> st\<lparr>closed_levels := Some (range_desc current_level (level (h nx)))\<rparr>
      | None \<Rightarrow> st\<lparr>closed_levels := Some (range_desc current_level (first_item_level - 1))\<rparr>)"

text \<open>
  The loop over the triples. The generator's output is the list of the pairs it yields,
  each with the copy of the dictionary taken at that moment; an exception ends it.
  \<^verbatim>\<open>current._mptt_meta\<close> on \<^verbatim>\<open>None\<close> would raise \<^verbatim>\<open>AttributeError\<close>.
  The items of \<^verbatim>\<open>tree_item_iterator\<close> are nodes (references into the store), none of
  them \<^verbatim>\<open>None\<close>: they are passed on as \<open>Some\<close> of the reference.
\<close>

fun annotate ::
    "heap \<Rightarrow> bool \<Rightarrow> (nat \<Rightarrow> 'l) \<Rightarrow> 'l structure_dict \<Rightarrow> int
      \<Rightarrow> (nat option \<times> nat option \<times> nat option) list
      \<Rightarrow> error + (nat \<times> 'l structure_dict) list" where
  "annotate h anc callback st first_item_level [] = Inr []"
| "annotate h anc callback st first_item_level ((previous, current, nxt) # rest) =
     (case current of
        None \<Rightarrow> Inl AttributeError
      | Some cur \<Rightarrow>
          (let current_level = level (h cur) in
           case on_entry h anc callback st first_item_level previous current_level of
             Inl e \<Rightarrow> Inl e
           | Inr (st1, fl) \<Rightarrow>
               (let st2 = on_exit h st1 fl nxt current_level in
                case annotate h anc callback st2 fl rest of
                  Inl e \<Rightarrow> Inl e
                | Inr out \<Rightarrow> Inr ((cur, st2) # out))))"

definition tree_item_iterator ::
    "heap \<Rightarrow> nat list \<Rightarrow> bool \<Rightarrow> (nat \<Rightarrow> 'l) \<Rightarrow> error + (nat \<times> 'l structure_dict) list" where
  "tree_item_iterator h its anc callback =
     (case previous_current_next (map Some its) of
        Inl e \<Rightarrow> Inl e
      | Inr triples \<Rightarrow>
          annotate h anc callback
            \<lparr>new_level = None, closed_levels = None, ancestors = None\<rparr> 0 triples)"

section \<open>\<^verbatim>\<open>get_cached_trees\<close>\<close>

text \<open>The local variables of the pass, with the store.\<close>

record pass_state =
  heap :: heap
  current_path :: "nat list"
  top_nodes :: "nat list"
  root_level :: "int option"

text \<open>
  \<^verbatim>\<open>while len(current_path) > node_level - root_level: current_path.pop(-1)\<close>;
  \<^verbatim>\<open>pop\<close> on an empty list raises \<^verbatim>\<open>IndexError\<close>.
\<close>

function pop_path :: "nat list \<Rightarrow> int \<Rightarrow> error + nat list" where
  "pop_path path d =
     (if int (length path) > d
      then (if path = [] then Inl IndexError else pop_path (butlast path) d)
      else Inr path)"
  by pat_completeness auto
termination
  by (relation "measure (\<lambda>(path, d). length path)") auto

declare pop_path.simps [simp del]

text \<open>
  Lines 295 to 304: the root level the iteration goes on with, or the
  \<^verbatim>\<open>ValueError\<close>.
\<close>

definition check_level :: "bool \<Rightarrow> int option \<Rightarrow> int \<Rightarrow> error + int" where
  "check_level is_filtered rl node_level =
     (case rl of
        None \<Rightarrow> Inr node_level
      | Some r \<Rightarrow>
          if is_filtered \<and> node_level < r then Inr node_level
          else if node_level < r then Inl ValueError
          else Inr r)"

text \<open>
  Lines 314 to 326, the \<^verbatim>\<open>else\<close> branch: \<^verbatim>\<open>current_path[-1]\<close> raises
  \<^verbatim>\<open>IndexError\<close> on an empty path, and \<^verbatim>\<open>_parent._cached_children\<close> raises
  \<^verbatim>\<open>AttributeError\<close> when the attribute was never set.
\<close>

definition link_parent :: "heap \<Rightarrow> nat list \<Rightarrow> int \<Rightarrow> nat \<Rightarrow> error + heap" where
  "link_parent h path r obj =
     (if path = [] then Inl IndexError
      else
        (let p = last path;
             h1 = h(obj := (h obj)\<lparr>parent := Some p\<rparr>)
         in case cached_children (h1 p) of
              None \<Rightarrow> Inl AttributeError
            | Some cs \<Rightarrow>
                (let h2 = h1(p := (h1 p)\<lparr>cached_children := Some (cs @ [obj])\<rparr>)
                 in Inr (if r = 0
                         then h2(obj := (h2 obj)\<lparr>mptt_use_cached_ancestors := True\<rparr>)
                         else h2))))"

text \<open>One iteration of \<^verbatim>\<open>for obj in queryset\<close> (lines 292 to 333).\<close>

definition visit :: "bool \<Rightarrow> pass_state \<Rightarrow> nat \<Rightarrow> error + pass_state" where
  "visit is_filtered s obj =
     (let node_level = level (heap s obj) in
      case check_level is_filtered (root_level s) node_level of
        Inl e \<Rightarrow> Inl e
      | Inr r \<Rightarrow>
          (let h1 = (heap s)(obj := (heap s obj)\<lparr>cached_children := Some []\<rparr>) in
           case pop_path (current_path s) (node_level - r) of
             Inl e \<Rightarrow> Inl e
           | Inr path \<Rightarrow>
               if node_level = r
               then Inr \<lparr>heap = h1, current_path = path @ [obj],
                         top_nodes = top_nodes s @ [obj], root_level = Some r\<rparr>
               else (case link_parent h1 path r obj of
                       Inl e \<Rightarrow> Inl e
                     | Inr h2 \<Rightarrow>
                         Inr \<lparr>heap = h2, current_path = path @ [obj],
                              top_nodes = top_nodes s, root_level = Some r\<rparr>)))"

fun visit_all :: "bool \<Rightarrow> pass_state \<Rightarrow> nat list \<Rightarrow> error + pass_state" where
  "visit_all is_filtered s [] = Inr s"
| "visit_all is_filtered s (obj # objs) =
     (case visit is_filtered s obj of
        Inl e \<Rightarrow> Inl e
      | Inr s' \<Rightarrow> visit_all is_filtered s' objs)"

text \<open>
  \<^verbatim>\<open>hasattr(queryset, "query") and queryset.query.has_filters()\<close>.
\<close>

definition is_filtered :: "queryset \<Rightarrow> bool" where
  "is_filtered qs = (case query qs of None \<Rightarrow> False | Some has_filters \<Rightarrow> has_filters)"

text \<open>
  The function returns \<^verbatim>\<open>top_nodes\<close>; the model returns the store after the pass as
  well, since the links are written on the nodes.
\<close>

definition get_cached_trees :: "heap \<Rightarrow> queryset \<Rightarrow> error + (heap \<times> nat list)" where
  "get_cached_trees h qs =
     (if items qs \<noteq> []
      then (case visit_all (is_filtered qs)
                   \<lparr>heap = h, current_path = [], top_nodes = [], root_level = None\<rparr>
                   (items qs) of
              Inl e \<Rightarrow> Inl e
            | Inr s \<Rightarrow> Inr (heap s, top_nodes s))
      else Inr (h, []))"

section \<open>Notions of the specification\<close>

text \<open>
  The level of the first node of a sequence; \<^verbatim>\<open>first_item_level\<close> starts at 0 in
  \<^verbatim>\<open>tree_item_iterator\<close>, which is the value taken here for the empty sequence.
\<close>

definition first_level :: "heap \<Rightarrow> nat list \<Rightarrow> int" where
  "first_level h xs = (case xs of [] \<Rightarrow> 0 | x # _ \<Rightarrow> level (h x))"

text \<open>
  Depth-first consistency of the levels along a sequence (invariant I1 of the
  specification): a node is at most one level deeper than the node before it, and no
  node is above the level of the first node.
\<close>

fun steps_ok :: "int list \<Rightarrow> bool" where
  "steps_ok (a # b # r) = (b \<le> a + 1 \<and> steps_ok (b # r))"
| "steps_ok _ = True"

definition depth_first_consistent :: "heap \<Rightarrow> nat list \<Rightarrow> bool" where
  "depth_first_consistent h xs =
     (steps_ok (map (\<lambda>n. level (h n)) xs) \<and>
      list_all (\<lambda>n. first_level h xs \<le> level (h n)) xs)"

text \<open>
  The ancestors invariant for one emitted pair: the key \<^verbatim>\<open>ancestors\<close> is set and
  its list has as many elements as the node is levels below the first node.
\<close>

definition ancestors_ok :: "heap \<Rightarrow> int \<Rightarrow> nat \<times> 'l structure_dict \<Rightarrow> bool" where
  "ancestors_ok h fl nf =
     (case ancestors (snd nf) of
        None \<Rightarrow> False
      | Some a \<Rightarrow> int (length a) = level (h (fst nf)) - fl)"

text \<open>
  The number of levels closed at a frame, their sum over the output, and the
  number of frames that open a level (\<^verbatim>\<open>new_level\<close> is true).
\<close>

definition closed_count :: "'l structure_dict \<Rightarrow> nat" where
  "closed_count fr = (case closed_levels fr of None \<Rightarrow> 0 | Some cl \<Rightarrow> length cl)"

definition total_closed :: "(nat \<times> 'l structure_dict) list \<Rightarrow> nat" where
  "total_closed out = sum_list (map (\<lambda>nf. closed_count (snd nf)) out)"

definition total_opened :: "(nat \<times> 'l structure_dict) list \<Rightarrow> nat" where
  "total_opened out = length (filter (\<lambda>nf. new_level (snd nf) = Some True) out)"

text \<open>
  The formula the specification gives for the sum of the closed levels: the first
  node's level minus the last node's level, plus the number of nodes whose next node
  is at a shallower or equal level.
\<close>

definition last_level :: "heap \<Rightarrow> nat list \<Rightarrow> int" where
  "last_level h xs = (case xs of [] \<Rightarrow> 0 | _ # _ \<Rightarrow> level (h (last xs)))"

definition next_not_deeper_count :: "heap \<Rightarrow> nat list \<Rightarrow> nat" where
  "next_not_deeper_count h xs =
     length (filter (\<lambda>ab. level (h (snd ab)) \<le> level (h (fst ab))) (zip xs (tl xs)))"

definition claimed_total :: "heap \<Rightarrow> nat list \<Rightarrow> int" where
  "claimed_total h xs =
     (first_level h xs - last_level h xs) + int (next_not_deeper_count h xs)"

text \<open>The sum of the lengths of \<^verbatim>\<open>closed_levels\<close> over what the iterator emits.\<close>

definition emitted_total :: "heap \<Rightarrow> nat list \<Rightarrow> int option" where
  "emitted_total h xs =
     (case tree_item_iterator h xs False (id :: nat \<Rightarrow> nat) of
        Inl _ \<Rightarrow> None
      | Inr out \<Rightarrow> Some (int (total_closed out)))"

text \<open>Concrete stores for the examples: node \<open>n\<close> has the \<open>n\<close>-th level of the list.\<close>

definition mk_node :: "int \<Rightarrow> node_obj" where
  "mk_node l = \<lparr>level = l, parent = None, cached_children = None,
                mptt_use_cached_ancestors = False\<rparr>"

definition heap_of_levels :: "int list \<Rightarrow> heap" where
  "heap_of_levels ls n = mk_node (if n < length ls then ls ! n else 0)"

text \<open>
  The triples as the specification describes them for items \<open>xs\<close>: as many triples as
  items, triple \<open>i\<close> has item \<open>i\<close> as its current component, \<^verbatim>\<open>None\<close> as its
  previous component exactly for \<open>i = 0\<close> and \<^verbatim>\<open>None\<close> as its next component
  exactly for the last index.
\<close>

definition triples_as_claimed ::
    "'a option list \<Rightarrow> ('a option \<times> 'a option \<times> 'a option) list \<Rightarrow> bool" where
  "triples_as_claimed xs ts =
     (length ts = length xs \<and>
      list_all (\<lambda>i. fst (snd (ts ! i)) = xs ! i \<and>
                    (fst (ts ! i) = None) = (i = 0) \<and>
                    (snd (snd (ts ! i)) = None) = (Suc i = length xs))
        [0 ..< length xs])"

section \<open>Auxiliary definitions of the proofs\<close>

text \<open>The triples of \<^verbatim>\<open>previous_current_next\<close>, by recursion on the items.\<close>

fun windows :: "'a option \<Rightarrow> 'a list \<Rightarrow> ('a option \<times> 'a option \<times> 'a option) list" where
  "windows p [] = []"
| "windows p [x] = [(p, Some x, None)]"
| "windows p (x # y # r) = (p, Some x, Some y) # windows (Some x) (y # r)"

definition next_of :: "'a list \<Rightarrow> 'a option" where
  "next_of r = (case r of [] \<Rightarrow> None | y # _ \<Rightarrow> Some y)"

text \<open>After the first iteration the keys read by the next one are set.\<close>

definition ready :: "bool \<Rightarrow> 'l structure_dict \<Rightarrow> bool" where
  "ready anc st = (closed_levels st \<noteq> None \<and> (anc \<longrightarrow> ancestors st \<noteq> None))"

section \<open>Notions of the specification for the reconstructor\<close>


text \<open>
  A node is linked one level up when its parent attribute holds a node whose level is
  the node's own level minus one.
\<close>

definition linked_one_up :: "heap \<Rightarrow> nat \<Rightarrow> bool" where
  "linked_one_up h n =
     (case parent (h n) of None \<Rightarrow> False | Some p \<Rightarrow> level (h p) = level (h n) - 1)"

text \<open>
  Flattening by depth-first pre-order traversal, as the specification words it: the
  roots in order, each node followed by its children list, recursively. The traversal
  keeps the nodes still to visit in a worklist: the first node is emitted and replaced
  by its children (read from \<^verbatim>\<open>_cached_children\<close>, the list that
  \<^verbatim>\<open>MPTTModel.get_children\<close> uses). The fuel bounds the number of nodes emitted;
  the result is \<open>None\<close> when the fuel runs out before the worklist is empty (on a
  cyclic store it always does) or when a node has no \<^verbatim>\<open>_cached_children\<close>.
\<close>

fun preorder :: "nat \<Rightarrow> (nat \<Rightarrow> nat list option) \<Rightarrow> nat list \<Rightarrow> nat list option" where
  "preorder fuel ch [] = Some []"
| "preorder 0 ch (n # ns) = None"
| "preorder (Suc fuel) ch (n # ns) =
     (case ch n of
        None \<Rightarrow> None
      | Some cs \<Rightarrow> map_option ((#) n) (preorder fuel ch (cs @ ns)))"

definition flatten :: "nat \<Rightarrow> heap \<Rightarrow> nat list \<Rightarrow> nat list option" where
  "flatten fuel h roots = preorder fuel (\<lambda>n. cached_children (h n)) roots"

section \<open>Auxiliary definitions of the proofs about the reconstructor\<close>

text \<open>
  What holds between two iterations of the loop: the path is not empty, every node on
  it has its children list, and no level has changed.
\<close>

definition pass_inv :: "heap \<Rightarrow> pass_state \<Rightarrow> bool" where
  "pass_inv h0 s =
     (current_path s \<noteq> [] \<and>
      (\<forall>p\<in>set (current_path s). cached_children (heap s p) \<noteq> None) \<and>
      (\<forall>n. level (heap s n) = level (h0 n)))"

text \<open>The nodes of the path are at consecutive levels, starting at the root level.\<close>

definition path_levels :: "heap \<Rightarrow> int \<Rightarrow> nat list \<Rightarrow> bool" where
  "path_levels h0 r path = (\<forall>i<length path. level (h0 (path ! i)) = r + int i)"



section \<open>The empty input\<close>

text \<open>
  Claim C10. For the empty input sequence \<^verbatim>\<open>get_cached_trees\<close> returns the empty list
  of top nodes without raising (and leaves the store as it was), and
  \<^verbatim>\<open>tree_item_iterator\<close> yields no pair, whatever the other arguments are.
\<close>

theorem empty_input:
  "get_cached_trees h \<lparr>query = q, items = []\<rparr> = Inr (h, [])
   \<and> tree_item_iterator h [] anc callback = Inr []"
  by (simp add: get_cached_trees_def tree_item_iterator_def previous_current_next_def
      advance_def)

section \<open>The windowed iterator\<close>

lemma advance_tl: "advance ys = (if ys = [] then Inl StopIteration else Inr (tl ys))"
  by (cases ys) (simp_all add: advance_def)

lemma previous_current_next_zip:
  "previous_current_next xs =
     Inr (zip (None # xs @ [None]) (zip (xs @ [None]) (tl (xs @ [None]))))"
  by (simp add: previous_current_next_def advance_tl)

lemma zip_windows:
  "zip (p # map Some xs @ [None]) (zip (map Some xs @ [None]) (tl (map Some xs @ [None])))
     = windows p xs"
  by (induction p xs rule: windows.induct) auto

lemma previous_current_next_map_Some:
  "previous_current_next (map Some xs) = Inr (windows None xs)"
  using zip_windows [of None xs] by (simp add: previous_current_next_zip)

lemma previous_current_next_windows:
  "previous_current_next (map Some xs) = Inr (windows None xs)"
  "previous_current_next (Some x # map Some r) = Inr (windows None (x # r))"
  "previous_current_next [] = Inr []"
  using previous_current_next_map_Some [of xs] previous_current_next_map_Some [of "x # r"]
    previous_current_next_map_Some [of "[]"]
  by simp_all

lemma length_windows: "length (windows p xs) = length xs"
  by (induction p xs rule: windows.induct) auto

text \<open>
  The triples for arbitrary items: triple \<open>i\<close> is made of the elements \<open>i\<close>, \<open>i + 1\<close>
  and \<open>i + 2\<close> of the items chained between two \<^verbatim>\<open>None\<close>.
\<close>

lemma previous_current_next_nth:
  "\<exists>ts. previous_current_next xs = Inr ts \<and> length ts = length xs \<and>
     (\<forall>i<length xs.
        ts ! i = (if i = 0 then None else xs ! (i - 1), xs ! i,
                  if Suc i = length xs then None else xs ! Suc i))"
proof -
  let ?ts = "zip (None # xs @ [None]) (zip (xs @ [None]) (tl (xs @ [None])))"
  have len: "length ?ts = length xs" by simp
  have "?ts ! i = (if i = 0 then None else xs ! (i - 1), xs ! i,
                   if Suc i = length xs then None else xs ! Suc i)"
    if i: "i < length xs" for i
  proof -
    have p: "(None # xs @ [None]) ! i = (if i = 0 then None else xs ! (i - 1))"
      using i by (cases i) (simp_all add: nth_append)
    have c: "(xs @ [None]) ! i = xs ! i"
      using i by (simp add: nth_append)
    have n: "tl (xs @ [None]) ! i = (if Suc i = length xs then None else xs ! Suc i)"
      using i by (simp add: nth_tl nth_append)
    show ?thesis using i p c n by simp
  qed
  then show ?thesis using len by (simp add: previous_current_next_zip)
qed

text \<open>
  Claim C6, as the specification states it: for every finite input sequence the previous
  component of triple \<open>i\<close> would be \<^verbatim>\<open>None\<close> only for \<open>i = 0\<close>, and the next
  component only for the last triple. An item that is itself \<^verbatim>\<open>None\<close> is handed on
  as the previous and next component of its neighbours: for the items
  \<^verbatim>\<open>[None, 5]\<close> the second triple, of index 1, is \<^verbatim>\<open>(None, 5, None)\<close>, with
  \<^verbatim>\<open>None\<close> as its previous component.
\<close>

theorem none_item_counterexample:
  "previous_current_next [None, Some (5 :: int)] =
     Inr [(None, None, Some 5), (None, Some 5, None)] \<and>
   \<not> triples_as_claimed [None, Some (5 :: int)]
       [(None, None, Some 5), (None, Some 5, None)]"
  by (simp add: previous_current_next_zip triples_as_claimed_def)

text \<open>
  Claim C6, amended. For every finite input sequence of length \<open>n\<close> none of whose items
  is \<^verbatim>\<open>None\<close>, \<^verbatim>\<open>previous_current_next\<close> returns (it does not raise) exactly
  \<open>n\<close> triples; the current component of triple \<open>i\<close> is item \<open>i\<close>, its previous
  component is \<^verbatim>\<open>None\<close> exactly when \<open>i = 0\<close>, and its next component is
  \<^verbatim>\<open>None\<close> exactly when \<open>i = n - 1\<close>.
\<close>

theorem previous_current_next_triples:
  assumes "None \<notin> set xs"
  shows "\<exists>ts. previous_current_next xs = Inr ts \<and> length ts = length xs \<and>
     (\<forall>i<length xs.
        fst (snd (ts ! i)) = xs ! i \<and>
        (fst (ts ! i) = None \<longleftrightarrow> i = 0) \<and>
        (snd (snd (ts ! i)) = None \<longleftrightarrow> Suc i = length xs))"
proof -
  from previous_current_next_nth [of xs]
  obtain ts where r: "previous_current_next xs = Inr ts" and l: "length ts = length xs"
    and a: "\<forall>i<length xs.
        ts ! i = (if i = 0 then None else xs ! (i - 1), xs ! i,
                  if Suc i = length xs then None else xs ! Suc i)"
    by blast
  have "fst (snd (ts ! i)) = xs ! i \<and> (fst (ts ! i) = None \<longleftrightarrow> i = 0) \<and>
        (snd (snd (ts ! i)) = None \<longleftrightarrow> Suc i = length xs)"
    if i: "i < length xs" for i
  proof -
    have t: "ts ! i = (if i = 0 then None else xs ! (i - 1), xs ! i,
                       if Suc i = length xs then None else xs ! Suc i)"
      using a i by blast
    have p: "xs ! (i - 1) \<noteq> None"
      using assms i by (metis less_imp_diff_less nth_mem)
    have n: "xs ! Suc i \<noteq> None" if "Suc i < length xs"
      using assms that by (metis nth_mem)
    show ?thesis
    proof (cases "Suc i = length xs")
      case True
      then show ?thesis using t p by simp
    next
      case False
      then have "Suc i < length xs" using i by simp
      then show ?thesis using t p n False by simp
    qed
  qed
  then show ?thesis using r l by blast
qed

theorem previous_current_next_triples_witness:
  "\<exists>ts. previous_current_next [Some 10, Some 20, Some (30 :: nat)] = Inr ts \<and>
     length ts = 3 \<and>
     fst (ts ! 0) = None \<and> fst (snd (ts ! 1)) = Some 20 \<and> fst (ts ! 1) \<noteq> None \<and>
     snd (snd (ts ! 1)) \<noteq> None \<and> snd (snd (ts ! 2)) = None"
proof -
  have "None \<notin> set [Some 10, Some 20, Some (30 :: nat)]" by simp
  from previous_current_next_triples [OF this]
  obtain ts where r: "previous_current_next [Some 10, Some 20, Some (30 :: nat)] = Inr ts"
    and l: "length ts = length [Some 10, Some 20, Some (30 :: nat)]"
    and a: "\<forall>i<length [Some 10, Some 20, Some (30 :: nat)].
        fst (snd (ts ! i)) = [Some 10, Some 20, Some 30] ! i \<and>
        (fst (ts ! i) = None \<longleftrightarrow> i = 0) \<and>
        (snd (snd (ts ! i)) = None \<longleftrightarrow>
           Suc i = length [Some 10, Some 20, Some (30 :: nat)])"
    by blast
  from a have "fst (ts ! 0) = None" by simp
  moreover from a have "fst (snd (ts ! 1)) = Some 20 \<and> fst (ts ! 1) \<noteq> None \<and>
      snd (snd (ts ! 1)) \<noteq> None"
    by simp
  moreover from a have "snd (snd (ts ! 2)) = None" by simp
  ultimately show ?thesis using r l by simp
qed

section \<open>The structural annotator\<close>

lemma range_desc_upto: "range_desc a b = rev [b + 1 .. a]"
proof (rule nth_equalityI)
  show "length (range_desc a b) = length (rev [b + 1 .. a])"
    by (simp add: range_desc_def)
next
  fix i assume "i < length (range_desc a b)"
  then have i: "i < nat (a - b)" by (simp add: range_desc_def)
  have "[b + 1 .. a] ! (nat (a - b) - Suc i) = b + 1 + int (nat (a - b) - Suc i)"
    using i by (intro nth_upto) linarith
  with i show "range_desc a b ! i = rev [b + 1 .. a] ! i"
    by (simp add: range_desc_def rev_nth)
qed

lemma length_range_desc: "length (range_desc a b) = nat (a - b)"
  by (simp add: range_desc_def)

lemma windows_Cons: "windows p (x # r) = (p, Some x, next_of r) # windows (Some x) r"
  by (cases r) (simp_all add: next_of_def)

lemma annotate_Cons:
  "annotate h anc cb st fl (windows p (x # r)) =
     (case on_entry h anc cb st fl p (level (h x)) of
        Inl e \<Rightarrow> Inl e
      | Inr (st1, fl') \<Rightarrow>
          (case annotate h anc cb (on_exit h st1 fl' (next_of r) (level (h x))) fl'
                  (windows (Some x) r) of
             Inl e \<Rightarrow> Inl e
           | Inr out \<Rightarrow> Inr ((x, on_exit h st1 fl' (next_of r) (level (h x))) # out)))"
  by (simp add: windows_Cons Let_def split: sum.splits prod.splits)

lemma on_entry_None:
  "on_entry h anc cb st fl None l =
     Inr (st\<lparr>new_level := Some True, ancestors := (if anc then Some [] else ancestors st)\<rparr>, l)"
  by (simp add: on_entry_def)

lemma on_entry_Some_plain:
  "on_entry h False cb st fl (Some q) l = Inr (st\<lparr>new_level := Some (level (h q) < l)\<rparr>, fl)"
  by (simp add: on_entry_def)

lemma on_entry_Some_anc:
  assumes "closed_levels st = Some cl" and "ancestors st = Some a"
  shows "on_entry h True cb st fl (Some q) l =
           Inr (st\<lparr>new_level := Some (level (h q) < l),
                    ancestors := Some (take (length a - length cl) a @
                                       (if level (h q) < l then [cb q] else []))\<rparr>, fl)"
  using assms by (cases "cl = []") (simp_all add: on_entry_def Let_def)

lemma on_exit_fields:
  "closed_levels (on_exit h st fl nx l) =
     Some (range_desc l (case nx of Some y \<Rightarrow> level (h y) | None \<Rightarrow> fl - 1))"
  "new_level (on_exit h st fl nx l) = new_level st"
  "ancestors (on_exit h st fl nx l) = ancestors st"
  by (simp_all add: on_exit_def split: option.splits)

lemma on_entry_ok:
  assumes "p \<noteq> None \<longrightarrow> ready anc st"
  shows "\<exists>st1. on_entry h anc cb st fl p l = Inr (st1, case p of None \<Rightarrow> l | Some _ \<Rightarrow> fl) \<and>
           (anc \<longrightarrow> ancestors st1 \<noteq> None) \<and>
           new_level st1 = Some (case p of None \<Rightarrow> True | Some q \<Rightarrow> level (h q) < l)"
proof (cases p)
  case None
  then show ?thesis by (simp add: on_entry_None)
next
  case (Some q)
  with assms have r: "ready anc st" by simp
  show ?thesis
  proof (cases anc)
    case True
    with r obtain cl a where "closed_levels st = Some cl" "ancestors st = Some a"
      by (auto simp: ready_def)
    with True Some show ?thesis by (simp add: on_entry_Some_anc)
  next
    case False
    with Some show ?thesis by (simp add: on_entry_Some_plain)
  qed
qed

lemma ready_on_exit: "(anc \<longrightarrow> ancestors st \<noteq> None) \<Longrightarrow> ready anc (on_exit h st fl nx l)"
  by (simp add: ready_def on_exit_fields)

lemma annotate_closed:
  assumes "p \<noteq> None \<longrightarrow> ready anc st"
  shows "\<exists>out. annotate h anc cb st fl (windows p xs) = Inr out \<and> map fst out = xs \<and>
           (\<forall>i<length xs. closed_levels (snd (out ! i)) =
              Some (range_desc (level (h (xs ! i)))
                     (if Suc i < length xs then level (h (xs ! Suc i))
                      else (case p of None \<Rightarrow> first_level h xs | Some _ \<Rightarrow> fl) - 1)))"
  using assms
proof (induction xs arbitrary: p st fl)
  case Nil
  then show ?case by simp
next
  case (Cons x r)
  define fl' where "fl' = (case p of None \<Rightarrow> level (h x) | Some _ \<Rightarrow> fl)"
  from on_entry_ok [where h = h and cb = cb and fl = fl and l = "level (h x)", OF Cons.prems]
  obtain st1 where e: "on_entry h anc cb st fl p (level (h x)) = Inr (st1, fl')"
    and a: "anc \<longrightarrow> ancestors st1 \<noteq> None"
    by (auto simp: fl'_def)
  define st2 where "st2 = on_exit h st1 fl' (next_of r) (level (h x))"
  have "ready anc st2" using a by (simp add: st2_def ready_on_exit)
  then have "Some x \<noteq> None \<longrightarrow> ready anc st2" by simp
  from Cons.IH [of "Some x" st2 fl', OF this]
  obtain out where o: "annotate h anc cb st2 fl' (windows (Some x) r) = Inr out"
    and m: "map fst out = r"
    and c: "\<forall>i<length r. closed_levels (snd (out ! i)) =
              Some (range_desc (level (h (r ! i)))
                     (if Suc i < length r then level (h (r ! Suc i)) else fl' - 1))"
    by auto
  have run: "annotate h anc cb st fl (windows p (x # r)) = Inr ((x, st2) # out)"
    using o by (simp add: annotate_Cons e st2_def)
  have c0: "closed_levels st2 =
      Some (range_desc (level (h x)) (if r \<noteq> [] then level (h (r ! 0)) else fl' - 1))"
    by (cases r) (simp_all add: st2_def on_exit_fields next_of_def)
  have fl'_eq: "(case p of None \<Rightarrow> first_level h (x # r) | Some _ \<Rightarrow> fl) = fl'"
    by (simp add: fl'_def first_level_def split: option.splits)
  have "closed_levels (snd (((x, st2) # out) ! i)) =
              Some (range_desc (level (h ((x # r) ! i)))
                     (if Suc i < length (x # r) then level (h ((x # r) ! Suc i))
                      else fl' - 1))" if "i < length (x # r)" for i
  proof (cases i)
    case 0
    then show ?thesis using c0 by (cases r) simp_all
  next
    case (Suc j)
    with that c show ?thesis by simp
  qed
  with run m show ?case unfolding fl'_eq by simp
qed

lemma tree_item_iterator_run:
  "\<exists>out. tree_item_iterator h xs anc cb = Inr out \<and> map fst out = xs \<and>
     (\<forall>i<length xs. closed_levels (snd (out ! i)) =
        Some (range_desc (level (h (xs ! i)))
               (if Suc i < length xs then level (h (xs ! Suc i))
                else first_level h xs - 1)))"
proof -
  let ?st = "\<lparr>new_level = None, closed_levels = None, ancestors = (None :: 'a list option)\<rparr>"
  have "None \<noteq> (None :: nat option) \<longrightarrow> ready anc ?st" by simp
  from annotate_closed [where st = ?st and h = h and cb = cb and fl = 0 and xs = xs, OF this]
  obtain out where o: "annotate h anc cb ?st 0 (windows None xs) = Inr out"
    and m: "map fst out = xs"
    and c: "\<forall>i<length xs. closed_levels (snd (out ! i)) =
              Some (range_desc (level (h (xs ! i)))
                     (if Suc i < length xs then level (h (xs ! Suc i))
                      else first_level h xs - 1))"
    by auto
  have "tree_item_iterator h xs anc cb = Inr out"
    by (simp add: tree_item_iterator_def previous_current_next_windows o)
  with m c show ?thesis by blast
qed

lemma tree_item_iterator_fst:
  "tree_item_iterator h xs anc cb = Inr out \<Longrightarrow> map fst out = xs"
  using tree_item_iterator_run [of h xs anc cb] by auto

text \<open>
  Claim C5. Each frame emitted by \<^verbatim>\<open>tree_item_iterator\<close> has \<^verbatim>\<open>closed_levels\<close>
  equal to the contiguous descending range from the current node's level down to
  (exclusive) the next node's level, which is empty when the next node is deeper (or at
  the same level), and for the final node down to (inclusive) the level of the first
  node. The iterator does not raise, and this holds for every input sequence, the
  depth-first-consistent ones among them, with or without ancestors. The range is
  stated with \<open>[i..j]\<close> of the library, the code's with \<open>range_desc\<close>.
\<close>

theorem closed_levels_range:
  "\<exists>out. tree_item_iterator h xs anc cb = Inr out \<and> map fst out = xs \<and>
     (\<forall>i<length xs. closed_levels (snd (out ! i)) =
        Some (if Suc i < length xs
              then rev [level (h (xs ! Suc i)) + 1 .. level (h (xs ! i))]
              else rev [first_level h xs .. level (h (xs ! i))]))"
proof -
  from tree_item_iterator_run [of h xs anc cb]
  obtain out where o: "tree_item_iterator h xs anc cb = Inr out"
    and m: "map fst out = xs"
    and c: "\<forall>i<length xs. closed_levels (snd (out ! i)) =
              Some (range_desc (level (h (xs ! i)))
                     (if Suc i < length xs then level (h (xs ! Suc i))
                      else first_level h xs - 1))"
    by blast
  have "closed_levels (snd (out ! i)) =
        Some (if Suc i < length xs
              then rev [level (h (xs ! Suc i)) + 1 .. level (h (xs ! i))]
              else rev [first_level h xs .. level (h (xs ! i))])" if "i < length xs" for i
    using c that by (simp add: range_desc_upto)
  with o m show ?thesis by blast
qed

lemma annotate_Nil_windows: "annotate h anc cb st fl (windows p []) = Inr []"
  by simp

declare windows.simps(2,3) [simp del]

lemma annotate_ancestors:
  assumes "ancestors st = Some a"
    and "closed_levels st = Some (range_desc (level (h q)) (level (h x)))"
    and "int (length a) = level (h q) - fl"
    and "steps_ok (map (\<lambda>n. level (h n)) (q # x # r))"
    and "\<forall>n\<in>set (x # r). fl \<le> level (h n)"
  shows "\<exists>out. annotate h True cb st fl (windows (Some q) (x # r)) = Inr out \<and>
           list_all (ancestors_ok h fl) out"
  using assms
proof (induction r arbitrary: q x st a)
  case Nil
  then show ?case
    by (auto simp: annotate_Cons on_entry_Some_anc ancestors_ok_def on_exit_fields
        length_range_desc next_of_def)
next
  case (Cons y r)
  define a' where "a' = take (length a - nat (level (h q) - level (h x))) a @
                          (if level (h q) < level (h x) then [cb q] else [])"
  define st1 where "st1 = st\<lparr>new_level := Some (level (h q) < level (h x)), ancestors := Some a'\<rparr>"
  define st2 where "st2 = on_exit h st1 fl (next_of (y # r)) (level (h x))"
  have e: "on_entry h True cb st fl (Some q) (level (h x)) = Inr (st1, fl)"
    using Cons.prems(1,2) by (simp add: on_entry_Some_anc st1_def a'_def length_range_desc)
  have la: "int (length a') = level (h x) - fl"
    using Cons.prems(3,4,5) by (auto simp: a'_def)
  have 1: "ancestors st2 = Some a'" by (simp add: st2_def on_exit_fields st1_def)
  have 2: "closed_levels st2 = Some (range_desc (level (h x)) (level (h y)))"
    by (simp add: st2_def on_exit_fields next_of_def)
  have 3: "steps_ok (map (\<lambda>n. level (h n)) (x # y # r))" using Cons.prems(4) by simp
  have 4: "\<forall>n\<in>set (y # r). fl \<le> level (h n)" using Cons.prems(5) by simp
  from Cons.IH [OF 1 2 la 3 4]
  obtain out where o: "annotate h True cb st2 fl (windows (Some x) (y # r)) = Inr out"
    and l: "list_all (ancestors_ok h fl) out" by blast
  have "annotate h True cb st fl (windows (Some q) (x # y # r)) = Inr ((x, st2) # out)"
    using o by (simp add: annotate_Cons e st2_def)
  moreover have "ancestors_ok h fl (x, st2)"
    by (simp add: ancestors_ok_def 1 la)
  ultimately show ?case using l by simp
qed

lemma annotate_totals:
  assumes "ready anc st"
    and "steps_ok (map (\<lambda>n. level (h n)) (q # x # r))"
    and "\<forall>n\<in>set (x # r). fl \<le> level (h n)"
  shows "\<exists>out. annotate h anc cb st fl (windows (Some q) (x # r)) = Inr out \<and>
           int (total_closed out) =
             int (total_opened out) + (min (level (h q)) (level (h x)) - fl + 1)"
  using assms
proof (induction r arbitrary: q x st)
  case Nil
  have "Some q \<noteq> None \<longrightarrow> ready anc st" using Nil.prems(1) by simp
  from on_entry_ok [where h = h and cb = cb and fl = fl and l = "level (h x)", OF this]
  obtain st1 where e: "on_entry h anc cb st fl (Some q) (level (h x)) = Inr (st1, fl)"
    and n: "new_level st1 = Some (level (h q) < level (h x))" by auto
  show ?case using Nil.prems(2,3)
    by (auto simp: annotate_Cons e n total_closed_def total_opened_def closed_count_def
        on_exit_fields next_of_def length_range_desc)
next
  case (Cons y r)
  have "Some q \<noteq> None \<longrightarrow> ready anc st" using Cons.prems(1) by simp
  from on_entry_ok [where h = h and cb = cb and fl = fl and l = "level (h x)", OF this]
  obtain st1 where e: "on_entry h anc cb st fl (Some q) (level (h x)) = Inr (st1, fl)"
    and a: "anc \<longrightarrow> ancestors st1 \<noteq> None"
    and n: "new_level st1 = Some (level (h q) < level (h x))" by auto
  define st2 where "st2 = on_exit h st1 fl (next_of (y # r)) (level (h x))"
  have 1: "ready anc st2" using a by (simp add: st2_def ready_on_exit)
  have 3: "steps_ok (map (\<lambda>n. level (h n)) (x # y # r))" using Cons.prems(2) by simp
  have 4: "\<forall>n\<in>set (y # r). fl \<le> level (h n)" using Cons.prems(3) by simp
  from Cons.IH [OF 1 3 4]
  obtain out where o: "annotate h anc cb st2 fl (windows (Some x) (y # r)) = Inr out"
    and t: "int (total_closed out) =
             int (total_opened out) + (min (level (h x)) (level (h y)) - fl + 1)" by blast
  have run: "annotate h anc cb st fl (windows (Some q) (x # y # r)) = Inr ((x, st2) # out)"
    using o by (simp add: annotate_Cons e st2_def)
  have c: "closed_count st2 = nat (level (h x) - level (h y))"
    by (simp add: closed_count_def st2_def on_exit_fields next_of_def length_range_desc)
  have nl: "new_level st2 = Some (level (h q) < level (h x))"
    by (simp add: st2_def on_exit_fields n)
  have "int (total_closed ((x, st2) # out)) =
          int (total_opened ((x, st2) # out)) + (min (level (h q)) (level (h x)) - fl + 1)"
    using t Cons.prems(2) by (auto simp: total_closed_def total_opened_def c nl)
  with run show ?case by simp
qed

lemma tree_item_iterator_Cons:
  "tree_item_iterator h (x # r) anc cb =
     (let st = on_exit h \<lparr>new_level = Some True, closed_levels = None,
                          ancestors = (if anc then Some [] else None)\<rparr>
                 (level (h x)) (next_of r) (level (h x))
      in case annotate h anc cb st (level (h x)) (windows (Some x) r) of
           Inl e \<Rightarrow> Inl e
         | Inr out \<Rightarrow> Inr ((x, st) # out))"
  by (cases anc)
    (simp_all add: tree_item_iterator_def previous_current_next_windows annotate_Cons
      on_entry_None Let_def split: sum.splits)

lemma consistent_example:
  "depth_first_consistent (heap_of_levels [0, 1, 2, 1, 0]) [0, 1, 2, 3, 4]"
  by (simp add: depth_first_consistent_def heap_of_levels_def mk_node_def first_level_def)

theorem closed_levels_range_witness:
  "\<exists>out. tree_item_iterator (heap_of_levels [0, 1, 2, 1, 0]) [0, 1, 2, 3, 4] False
            (id :: nat \<Rightarrow> nat) = Inr out \<and>
     closed_levels (snd (out ! 0)) = Some [] \<and>
     closed_levels (snd (out ! 2)) = Some [2] \<and>
     closed_levels (snd (out ! 3)) = Some [1] \<and>
     closed_levels (snd (out ! 4)) = Some [0]"
proof -
  let ?h = "heap_of_levels [0, 1, 2, 1, 0]"
  let ?xs = "[0, 1, 2, 3, 4 :: nat]"
  from closed_levels_range [of ?h ?xs False "id :: nat \<Rightarrow> nat"]
  obtain out where o: "tree_item_iterator ?h ?xs False (id :: nat \<Rightarrow> nat) = Inr out"
    and c: "\<forall>i<length ?xs. closed_levels (snd (out ! i)) =
        Some (if Suc i < length ?xs
              then rev [level (?h (?xs ! Suc i)) + 1 .. level (?h (?xs ! i))]
              else rev [first_level ?h ?xs .. level (?h (?xs ! i))])"
    by blast
  from c have "closed_levels (snd (out ! 0)) = Some []"
    by (simp add: heap_of_levels_def mk_node_def)
  moreover from c have "closed_levels (snd (out ! 2)) = Some [2]"
    by (simp add: heap_of_levels_def mk_node_def)
  moreover from c have "closed_levels (snd (out ! 3)) = Some [1]"
    by (simp add: heap_of_levels_def mk_node_def)
  moreover from c have "closed_levels (snd (out ! 4)) = Some [0]"
    by (simp add: heap_of_levels_def mk_node_def first_level_def)
  ultimately show ?thesis using o by blast
qed

text \<open>
  Claim C4. For every depth-first-consistent input sequence, when
  \<^verbatim>\<open>tree_item_iterator\<close> is run with \<^verbatim>\<open>ancestors=True\<close> it does not raise and
  every emitted frame has \<^verbatim>\<open>len(ancestors)\<close> equal to the level of its node minus the
  level of the first node of the sequence.
\<close>

theorem ancestors_length:
  assumes "depth_first_consistent h xs"
  shows "\<exists>out. tree_item_iterator h xs True cb = Inr out \<and> map fst out = xs \<and>
           list_all (ancestors_ok h (first_level h xs)) out"
proof (cases xs)
  case Nil
  then show ?thesis
    by (simp add: tree_item_iterator_def previous_current_next_windows)
next
  case (Cons x r)
  define st where "st = on_exit h \<lparr>new_level = Some True, closed_levels = None,
      ancestors = Some ([] :: 'a list)\<rparr> (level (h x)) (next_of r) (level (h x))"
  have ok: "ancestors_ok h (level (h x)) (x, st)"
    by (simp add: ancestors_ok_def st_def on_exit_fields)
  have "\<exists>out. annotate h True cb st (level (h x)) (windows (Some x) r) = Inr out \<and>
           list_all (ancestors_ok h (level (h x))) out"
  proof (cases r)
    case Nil
    then show ?thesis by simp
  next
    case (Cons y r')
    have 1: "ancestors st = Some []" by (simp add: st_def on_exit_fields)
    have 2: "closed_levels st = Some (range_desc (level (h x)) (level (h y)))"
      by (simp add: st_def on_exit_fields next_of_def Cons)
    have 3: "int (length ([] :: 'a list)) = level (h x) - level (h x)" by simp
    have 4: "steps_ok (map (\<lambda>n. level (h n)) (x # y # r'))"
      using assms \<open>xs = x # r\<close> Cons by (simp add: depth_first_consistent_def)
    have 5: "\<forall>n\<in>set (y # r'). level (h x) \<le> level (h n)"
      using assms \<open>xs = x # r\<close> Cons
      by (simp add: depth_first_consistent_def first_level_def list_all_iff)
    from annotate_ancestors [OF 1 2 3 4 5] Cons show ?thesis by simp
  qed
  then obtain out where o: "annotate h True cb st (level (h x)) (windows (Some x) r) = Inr out"
    and l: "list_all (ancestors_ok h (level (h x))) out" by blast
  have run: "tree_item_iterator h xs True cb = Inr ((x, st) # out)"
    using o by (simp add: Cons tree_item_iterator_Cons st_def)
  moreover have "map fst ((x, st) # out) = xs"
    using run by (rule tree_item_iterator_fst)
  moreover have "list_all (ancestors_ok h (first_level h xs)) ((x, st) # out)"
    using ok l by (simp add: Cons first_level_def)
  ultimately show ?thesis by blast
qed

theorem ancestors_length_witness:
  "depth_first_consistent (heap_of_levels [0, 1, 2, 1, 0]) [0, 1, 2, 3, 4] \<and>
   (\<exists>out. tree_item_iterator (heap_of_levels [0, 1, 2, 1, 0]) [0, 1, 2, 3, 4] True
             (id :: nat \<Rightarrow> nat) = Inr out \<and>
      map fst out = [0, 1, 2, 3, 4] \<and>
      list_all (ancestors_ok (heap_of_levels [0, 1, 2, 1, 0]) 0) out)"
  using consistent_example
    ancestors_length [OF consistent_example, of "id :: nat \<Rightarrow> nat"]
  by (simp add: first_level_def heap_of_levels_def mk_node_def)

text \<open>
  Claim C7, as the specification states it: the sum over all nodes of
  \<^verbatim>\<open>len(closed_levels)\<close> would be the first node's level minus the last node's level
  plus the number of nodes whose next node is at a shallower or equal level. On the two
  nodes with levels 0 and 1 the iterator closes two levels (both at the last node),
  while the formula gives \<open>-1\<close>; counting the last node as well would give 0.
\<close>

theorem closed_total_formula_counterexample:
  "depth_first_consistent (heap_of_levels [0, 1]) [0, 1] \<and>
   emitted_total (heap_of_levels [0, 1]) [0, 1] = Some 2 \<and>
   claimed_total (heap_of_levels [0, 1]) [0, 1] = - 1"
  by (simp add: depth_first_consistent_def first_level_def emitted_total_def
      tree_item_iterator_Cons heap_of_levels_def mk_node_def annotate_Cons
      on_entry_Some_plain on_exit_fields next_of_def total_closed_def closed_count_def
      length_range_desc Let_def claimed_total_def last_level_def
      next_not_deeper_count_def)

text \<open>
  Claim C7, amended. For every depth-first-consistent input sequence the iterator does
  not raise, and the sum over all nodes of \<^verbatim>\<open>len(closed_levels)\<close> equals the number
  of nodes whose frame has \<^verbatim>\<open>new_level\<close> true: every level opened is closed exactly
  once.
\<close>

theorem closed_equals_opened:
  assumes "depth_first_consistent h xs"
  shows "\<exists>out. tree_item_iterator h xs anc cb = Inr out \<and> map fst out = xs \<and>
           total_closed out = total_opened out"
proof (cases xs)
  case Nil
  then show ?thesis
    by (simp add: tree_item_iterator_def previous_current_next_windows total_closed_def
        total_opened_def)
next
  case (Cons x r)
  define st where "st = on_exit h \<lparr>new_level = Some True, closed_levels = None,
      ancestors = (if anc then Some ([] :: 'a list) else None)\<rparr>
      (level (h x)) (next_of r) (level (h x))"
  have "\<exists>out. tree_item_iterator h xs anc cb = Inr out \<and>
          total_closed out = total_opened out"
  proof (cases r)
    case Nil
    then show ?thesis
      by (simp add: Cons tree_item_iterator_Cons total_closed_def total_opened_def
          closed_count_def on_exit_fields next_of_def length_range_desc)
  next
    case r: (Cons y r')
    have 1: "ready anc st" by (simp add: st_def ready_on_exit)
    have 2: "steps_ok (map (\<lambda>n. level (h n)) (x # y # r'))"
      using assms Cons r by (simp add: depth_first_consistent_def)
    have 3: "\<forall>n\<in>set (y # r'). level (h x) \<le> level (h n)"
      using assms Cons r
      by (simp add: depth_first_consistent_def first_level_def list_all_iff)
    from annotate_totals [OF 1 2 3]
    obtain out where o: "annotate h anc cb st (level (h x)) (windows (Some x) (y # r')) = Inr out"
      and t: "int (total_closed out) =
             int (total_opened out) + (min (level (h x)) (level (h y)) - level (h x) + 1)"
      by blast
    have run: "tree_item_iterator h xs anc cb = Inr ((x, st) # out)"
      using o by (simp add: Cons r tree_item_iterator_Cons st_def)
    have c: "closed_count st = nat (level (h x) - level (h y))"
      by (simp add: closed_count_def st_def on_exit_fields next_of_def r length_range_desc)
    have n: "new_level st = Some True" by (simp add: st_def on_exit_fields)
    have "int (total_closed ((x, st) # out)) = int (total_opened ((x, st) # out))"
      using t by (auto simp: total_closed_def total_opened_def c n)
    with run show ?thesis by simp
  qed
  then show ?thesis using tree_item_iterator_fst by blast
qed

theorem closed_equals_opened_witness:
  "depth_first_consistent (heap_of_levels [0, 1, 2, 1, 0]) [0, 1, 2, 3, 4] \<and>
   (\<exists>out. tree_item_iterator (heap_of_levels [0, 1, 2, 1, 0]) [0, 1, 2, 3, 4] True
             (id :: nat \<Rightarrow> nat) = Inr out \<and>
      map fst out = [0, 1, 2, 3, 4] \<and> total_closed out = total_opened out)"
  using consistent_example
    closed_equals_opened [OF consistent_example, of True "id :: nat \<Rightarrow> nat"]
  by simp

section \<open>The tree reconstructor\<close>

lemma pop_path_eq:
  "pop_path path d = (if d < 0 then Inl IndexError else Inr (take (nat d) path))"
proof (induction path d rule: pop_path.induct)
  case (1 path d)
  show ?case
  proof (cases "int (length path) > d")
    case True
    show ?thesis
    proof (cases "path = []")
      case True
      with \<open>int (length path) > d\<close> show ?thesis by (simp add: pop_path.simps)
    next
      case False
      have "take (nat d) (butlast path) = take (nat d) path" if "0 \<le> d"
        using that True False by (simp add: butlast_conv_take min_def)
      with 1 [OF True False] True False show ?thesis
        by (subst pop_path.simps) auto
    qed
  next
    case False
    then show ?thesis by (subst pop_path.simps) auto
  qed
qed

lemma check_level_cases:
  assumes "check_level f rl l = Inr r"
  shows "r \<le> l" and "rl = None \<or> r = l \<or> rl = Some r"
  using assms by (auto simp: check_level_def split: option.splits if_splits)

lemma link_parent_props:
  assumes "path \<noteq> []" and "cached_children (h (last path)) = Some cs"
  shows "\<exists>h'. link_parent h path r obj = Inr h' \<and>
           (\<forall>n. level (h' n) = level (h n)) \<and>
           parent (h' obj) = Some (last path) \<and>
           (\<forall>n. n \<noteq> obj \<longrightarrow> parent (h' n) = parent (h n)) \<and>
           (\<forall>n. cached_children (h' n) =
                  (if n = last path then Some (cs @ [obj]) else cached_children (h n)))"
  using assms by (auto simp: link_parent_def Let_def)

lemma link_parent_Inr:
  assumes "link_parent h path r obj = Inr h'"
  shows "path \<noteq> [] \<and> (\<exists>cs. cached_children (h (last path)) = Some cs)"
  using assms by (auto simp: link_parent_def Let_def split: if_splits option.splits)

lemma visit_top:
  assumes "check_level f (root_level s) (level (heap s obj)) = Inr (level (heap s obj))"
  shows "visit f s obj =
           Inr \<lparr>heap = (heap s)(obj := (heap s obj)\<lparr>cached_children := Some []\<rparr>),
                current_path = [obj], top_nodes = top_nodes s @ [obj],
                root_level = Some (level (heap s obj))\<rparr>"
  using assms by (simp add: visit_def pop_path_eq)

lemma visit_child:
  assumes "check_level f (root_level s) (level (heap s obj)) = Inr r"
    and "r \<noteq> level (heap s obj)"
  shows "visit f s obj =
           (case link_parent ((heap s)(obj := (heap s obj)\<lparr>cached_children := Some []\<rparr>))
                   (take (nat (level (heap s obj) - r)) (current_path s)) r obj of
              Inl e \<Rightarrow> Inl e
            | Inr h2 \<Rightarrow>
                Inr \<lparr>heap = h2,
                     current_path = take (nat (level (heap s obj) - r)) (current_path s) @ [obj],
                     top_nodes = top_nodes s, root_level = Some r\<rparr>)"
  using assms check_level_cases(1) [OF assms(1)]
  by (simp add: visit_def pop_path_eq Let_def)

lemma visit_error:
  assumes "root_level s = Some r" and "level (heap s obj) < r"
  shows "visit False s obj = Inl ValueError"
  using assms by (simp add: visit_def check_level_def)

lemma visit_keeps_inv:
  assumes "pass_inv h0 s" and "root_level s = Some r" and "r \<le> level (heap s obj)"
  shows "\<exists>s'. visit False s obj = Inr s' \<and> pass_inv h0 s' \<and> root_level s' = Some r"
proof -
  let ?l = "level (heap s obj)"
  let ?h1 = "(heap s)(obj := (heap s obj)\<lparr>cached_children := Some []\<rparr>)"
  have c: "check_level False (root_level s) ?l = Inr r"
    using assms(2,3) by (simp add: check_level_def)
  show ?thesis
  proof (cases "r = ?l")
    case True
    with c have "check_level False (root_level s) ?l = Inr ?l" by simp
    from visit_top [OF this] assms(1) True show ?thesis
      by (simp add: pass_inv_def)
  next
    case False
    let ?path = "take (nat (?l - r)) (current_path s)"
    from False assms(1,3) have ne: "?path \<noteq> []" by (auto simp: pass_inv_def)
    then have "last ?path \<in> set (current_path s)"
      by (meson in_set_takeD last_in_set)
    with assms(1) have "\<exists>cs. cached_children (?h1 (last ?path)) = Some cs"
      by (cases "last ?path = obj") (auto simp: pass_inv_def)
    then obtain cs where "cached_children (?h1 (last ?path)) = Some cs" ..
    from link_parent_props [where h = ?h1 and path = ?path and r = r and obj = obj, OF ne this]
    obtain h' where l: "link_parent ?h1 ?path r obj = Inr h'"
      and lv: "\<forall>n. level (h' n) = level (?h1 n)"
      and ch: "\<forall>n. cached_children (h' n) =
                  (if n = last ?path then Some (cs @ [obj]) else cached_children (?h1 n))"
      by blast
    have "\<forall>p\<in>set (?path @ [obj]). cached_children (h' p) \<noteq> None"
      using assms(1) ch by (auto simp: pass_inv_def dest: in_set_takeD)
    moreover have "\<forall>n. level (h' n) = level (h0 n)"
      using assms(1) lv by (simp add: pass_inv_def)
    ultimately show ?thesis
      using visit_child [OF c False] l by (simp add: pass_inv_def)
  qed
qed

lemma visit_all_error:
  assumes "pass_inv h0 s" and "root_level s = Some r"
    and "\<exists>x\<in>set xs. level (h0 x) < r"
  shows "visit_all False s xs = Inl ValueError"
  using assms
proof (induction xs arbitrary: s)
  case Nil
  then show ?case by simp
next
  case (Cons x xs)
  have lv: "level (heap s x) = level (h0 x)" using Cons.prems(1) by (simp add: pass_inv_def)
  show ?case
  proof (cases "level (h0 x) < r")
    case True
    with visit_error [OF Cons.prems(2), of x] lv show ?thesis by simp
  next
    case False
    with lv have "r \<le> level (heap s x)" by simp
    from visit_keeps_inv [OF Cons.prems(1,2) this]
    obtain s' where v: "visit False s x = Inr s'" and i: "pass_inv h0 s'"
      and r: "root_level s' = Some r" by blast
    from Cons.prems(3) False have "\<exists>x\<in>set xs. level (h0 x) < r" by auto
    from Cons.IH [OF i r this] v show ?thesis by simp
  qed
qed

text \<open>
  Claim C9. For a plain list (an input without a \<^verbatim>\<open>query\<close> attribute)
  \<^verbatim>\<open>get_cached_trees\<close> never runs in filtered mode: a node after the first whose
  level is strictly below the first node's level makes the call raise
  \<^verbatim>\<open>ValueError\<close>; the root level is never lowered.
\<close>

theorem plain_list_below_first_raises:
  assumes "query qs = None"
    and "0 < i" and "i < length (items qs)"
    and "level (h (items qs ! i)) < level (h (items qs ! 0))"
  shows "get_cached_trees h qs = Inl ValueError"
proof -
  from assms(3) obtain x xs where xs: "items qs = x # xs" by (cases "items qs") auto
  let ?s0 = "\<lparr>heap = h, current_path = [], top_nodes = [], root_level = None\<rparr>"
  let ?s1 = "\<lparr>heap = h(x := (h x)\<lparr>cached_children := Some []\<rparr>),
             current_path = [x], top_nodes = [x], root_level = Some (level (h x))\<rparr>"
  have v: "visit False ?s0 x = Inr ?s1"
    using visit_top [of False ?s0 x] by (simp add: check_level_def)
  have i: "pass_inv h ?s1" by (simp add: pass_inv_def)
  from assms(2,3,4) xs have "\<exists>y\<in>set xs. level (h y) < level (h x)"
    by (cases i) auto
  from visit_all_error [OF i _ this] have "visit_all False ?s1 xs = Inl ValueError" by simp
  with v xs assms(1) show ?thesis
    by (simp add: get_cached_trees_def is_filtered_def)
qed

theorem plain_list_below_first_raises_witness:
  "get_cached_trees (heap_of_levels [1, 2, 0]) \<lparr>query = None, items = [0, 1, 2]\<rparr>
     = Inl ValueError"
  using plain_list_below_first_raises [where i = 2 and h = "heap_of_levels [1, 2, 0]"
      and qs = "\<lparr>query = None, items = [0, 1, 2]\<rparr>"]
  by (simp add: heap_of_levels_def mk_node_def)

lemmas pass_simps = get_cached_trees_def is_filtered_def visit_def check_level_def
  link_parent_def pop_path_eq Let_def

text \<open>
  Claim C8. For three nodes with levels 2, 3, 2 (the two level-2 nodes being two
  objects) and a filtered queryset, \<^verbatim>\<open>get_cached_trees\<close> returns exactly the two
  level-2 nodes in arrival order; the level-3 node has the first level-2 node as its
  parent and is the one element of that node's children list.
\<close>

theorem filtered_2_3_2:
  assumes "query qs = Some True" and "items qs = [a, b, c]"
    and "level (h a) = 2" and "level (h b) = 3" and "level (h c) = 2"
    and "a \<noteq> c"
  shows "\<exists>h'. get_cached_trees h qs = Inr (h', [a, c]) \<and>
           parent (h' b) = Some a \<and> cached_children (h' a) = Some [b]"
proof -
  have "a \<noteq> b" "b \<noteq> c" using assms(3,4,5) by auto
  with assms show ?thesis by (simp add: pass_simps)
qed

theorem filtered_2_3_2_witness:
  "\<exists>h'. get_cached_trees (heap_of_levels [2, 3, 2]) \<lparr>query = Some True, items = [0, 1, 2]\<rparr>
          = Inr (h', [0, 2]) \<and>
        parent (h' 1) = Some 0 \<and> cached_children (h' 0) = Some [1]"
  using filtered_2_3_2 [where qs = "\<lparr>query = Some True, items = [0, 1, 2]\<rparr>"
      and h = "heap_of_levels [2, 3, 2]" and a = 0 and b = 1 and c = 2]
  by (simp add: heap_of_levels_def mk_node_def)




lemma path_levels_last:
  "path_levels h0 r path \<Longrightarrow> path \<noteq> [] \<Longrightarrow>
     level (h0 (last path)) = r + int (length path) - 1"
proof -
  assume pl: "path_levels h0 r path" and ne: "path \<noteq> []"
  then have "level (h0 (path ! (length path - 1))) = r + int (length path - 1)"
    by (simp add: path_levels_def)
  moreover have "int (length path - 1) = int (length path) - 1"
    using ne by (cases path) simp_all
  ultimately show ?thesis using ne by (simp add: last_conv_nth)
qed

lemma path_levels_snoc:
  "path_levels h0 r path \<Longrightarrow> level (h0 x) = r + int (length path) \<Longrightarrow>
     path_levels h0 r (path @ [x])"
  by (auto simp: path_levels_def nth_append)

lemma path_levels_take: "path_levels h0 r path \<Longrightarrow> path_levels h0 r (take n path)"
  by (auto simp: path_levels_def)

lemma visit_Inr_check:
  assumes "visit f s x = Inr s'"
  shows "\<exists>r'. check_level f (root_level s) (level (heap s x)) = Inr r'"
  using assms by (auto simp: visit_def Let_def split: sum.splits)

lemma visit_links:
  assumes inv: "pass_inv h0 s" and rl: "root_level s = Some r"
    and pl: "path_levels h0 r (current_path s)"
    and step: "level (h0 x) \<le> level (h0 (last (current_path s))) + 1"
    and v: "visit f s x = Inr s'"
  shows "pass_inv h0 s' \<and> (\<exists>r'. root_level s' = Some r' \<and> path_levels h0 r' (current_path s'))
         \<and> last (current_path s') = x
         \<and> (x \<in> set (top_nodes s') \<or> linked_one_up (heap s') x)
         \<and> set (top_nodes s) \<subseteq> set (top_nodes s')
         \<and> (\<forall>n. n \<noteq> x \<longrightarrow> parent (heap s' n) = parent (heap s n))"
proof -
  let ?l = "level (heap s x)"
  let ?h1 = "(heap s)(x := (heap s x)\<lparr>cached_children := Some []\<rparr>)"
  have lx: "?l = level (h0 x)" using inv by (simp add: pass_inv_def)
  from visit_Inr_check [OF v] obtain r' where c: "check_level f (root_level s) ?l = Inr r'"
    by blast
  show ?thesis
  proof (cases "r' = ?l")
    case True
    with c have "check_level f (root_level s) ?l = Inr ?l" by simp
    from visit_top [OF this] v inv lx show ?thesis
      by (auto simp: pass_inv_def path_levels_def)
  next
    case False
    with check_level_cases [OF c] rl have r': "r' = r" and lt: "r < ?l" by auto
    let ?path = "take (nat (?l - r)) (current_path s)"
    from visit_child [OF c False] v r'
    obtain h2 where l: "link_parent ?h1 ?path r x = Inr h2"
      and s': "s' = \<lparr>heap = h2, current_path = ?path @ [x], top_nodes = top_nodes s,
                     root_level = Some r\<rparr>"
      by (auto split: sum.splits)
    from link_parent_Inr [OF l] obtain cs where ne: "?path \<noteq> []"
      and cs: "cached_children (?h1 (last ?path)) = Some cs" by blast
    from link_parent_props [where h = ?h1 and path = ?path and r = r and obj = x, OF ne cs] l
    have lv: "\<forall>n. level (h2 n) = level (?h1 n)"
      and pa: "parent (h2 x) = Some (last ?path)"
      and po: "\<forall>n. n \<noteq> x \<longrightarrow> parent (h2 n) = parent (?h1 n)"
      and ch: "\<forall>n. cached_children (h2 n) =
                  (if n = last ?path then Some (cs @ [x]) else cached_children (?h1 n))"
      by auto
    have lv0: "\<forall>n. level (h2 n) = level (h0 n)" using inv lv by (simp add: pass_inv_def)
    have cne: "current_path s \<noteq> []" using inv by (simp add: pass_inv_def)
    have "int (length (current_path s)) = level (h0 (last (current_path s))) - r + 1"
      using path_levels_last [OF pl cne] by simp
    with step lx have len: "length ?path = nat (?l - r)" by simp
    have plt: "path_levels h0 r ?path" using pl by (rule path_levels_take)
    have "level (h0 (last ?path)) = ?l - 1"
      using path_levels_last [OF plt ne] len lt by simp
    then have link: "linked_one_up h2 x"
      using pa lv0 lx by (simp add: linked_one_up_def)
    have pl': "path_levels h0 r (?path @ [x])"
      using plt len lt lx by (intro path_levels_snoc) simp_all
    have "\<forall>p\<in>set (?path @ [x]). cached_children (h2 p) \<noteq> None"
      using inv ch by (auto simp: pass_inv_def dest: in_set_takeD)
    with lv0 have "pass_inv h0 s'" by (simp add: s' pass_inv_def)
    with pl' link po show ?thesis by (simp add: s')
  qed
qed

lemma visit_all_links:
  assumes "pass_inv h0 s" and "root_level s = Some r"
    and "path_levels h0 r (current_path s)"
    and "steps_ok (level (h0 (last (current_path s))) # map (\<lambda>n. level (h0 n)) xs)"
    and "visit_all f s xs = Inr s'"
    and "\<forall>n\<in>D. n \<in> set (top_nodes s) \<or> linked_one_up (heap s) n"
  shows "(\<forall>n\<in>D \<union> set xs. n \<in> set (top_nodes s') \<or> linked_one_up (heap s') n) \<and>
         (\<forall>n. level (heap s' n) = level (h0 n))"
  using assms
proof (induction xs arbitrary: s r D)
  case Nil
  then show ?case by (simp add: pass_inv_def)
next
  case (Cons x xs)
  from Cons.prems(5) obtain s1 where v: "visit f s x = Inr s1"
    and va: "visit_all f s1 xs = Inr s'"
    by (auto split: sum.splits)
  have step: "level (h0 x) \<le> level (h0 (last (current_path s))) + 1"
    using Cons.prems(4) by simp
  from visit_links [OF Cons.prems(1,2,3) step v]
  obtain r' where i1: "pass_inv h0 s1" and r1: "root_level s1 = Some r'"
    and p1: "path_levels h0 r' (current_path s1)"
    and la: "last (current_path s1) = x"
    and x1: "x \<in> set (top_nodes s1) \<or> linked_one_up (heap s1) x"
    and t1: "set (top_nodes s) \<subseteq> set (top_nodes s1)"
    and pa: "\<forall>n. n \<noteq> x \<longrightarrow> parent (heap s1 n) = parent (heap s n)"
    by blast
  have st: "steps_ok (level (h0 (last (current_path s1))) # map (\<lambda>n. level (h0 n)) xs)"
    using Cons.prems(4) la by simp
  have lv: "level (heap s1 n) = level (heap s n)" for n
    using i1 Cons.prems(1) by (simp add: pass_inv_def)
  have "n \<in> set (top_nodes s1) \<or> linked_one_up (heap s1) n" if "n \<in> insert x D" for n
  proof (cases "n = x")
    case True
    with x1 show ?thesis by simp
  next
    case False
    with that Cons.prems(6) have "n \<in> set (top_nodes s) \<or> linked_one_up (heap s) n" by simp
    then show ?thesis
    proof
      assume "n \<in> set (top_nodes s)"
      with t1 show ?thesis by auto
    next
      assume "linked_one_up (heap s) n"
      with pa False lv have "linked_one_up (heap s1) n"
        by (auto simp: linked_one_up_def split: option.splits)
      then show ?thesis ..
    qed
  qed
  then have "\<forall>n\<in>insert x D. n \<in> set (top_nodes s1) \<or> linked_one_up (heap s1) n" by blast
  from Cons.IH [OF i1 r1 p1 st va this] show ?case by simp
qed

text \<open>
  Claim C3. After a completed pass of \<^verbatim>\<open>get_cached_trees\<close> over an input whose
  levels never go more than one level deeper from a node to the next, every input node
  that is not in the returned list of top nodes has a parent, and the parent's level is
  the node's level minus one. The hypothesis is the first half of invariant I1; nothing
  is assumed on filtered mode.
\<close>

theorem parent_one_level_up:
  assumes "steps_ok (map (\<lambda>n. level (h n)) (items qs))"
    and "get_cached_trees h qs = Inr (h', tops)"
  shows "list_all (\<lambda>n. n \<in> set tops \<or> linked_one_up h' n) (items qs)"
proof (cases "items qs")
  case Nil
  then show ?thesis by simp
next
  case (Cons x xs)
  let ?s0 = "\<lparr>heap = h, current_path = [], top_nodes = [], root_level = None\<rparr>"
  let ?s1 = "\<lparr>heap = h(x := (h x)\<lparr>cached_children := Some []\<rparr>),
             current_path = [x], top_nodes = [x], root_level = Some (level (h x))\<rparr>"
  have v: "visit (is_filtered qs) ?s0 x = Inr ?s1"
    using visit_top [of "is_filtered qs" ?s0 x] by (simp add: check_level_def)
  from assms(2) Cons v obtain s' where va: "visit_all (is_filtered qs) ?s1 xs = Inr s'"
    and h': "h' = heap s'" and tops: "tops = top_nodes s'"
    by (auto simp: get_cached_trees_def split: sum.splits)
  have 1: "pass_inv h ?s1" by (simp add: pass_inv_def)
  have 2: "root_level ?s1 = Some (level (h x))" by simp
  have 3: "path_levels h (level (h x)) (current_path ?s1)" by (simp add: path_levels_def)
  have 4: "steps_ok (level (h (last (current_path ?s1))) # map (\<lambda>n. level (h n)) xs)"
    using assms(1) Cons by simp
  have 5: "\<forall>n\<in>{x}. n \<in> set (top_nodes ?s1) \<or> linked_one_up (heap ?s1) n" by simp
  from visit_all_links [OF 1 2 3 4 va 5] show ?thesis
    by (simp add: Cons h' tops list_all_iff)
qed

lemma pass_example:
  "\<exists>h'. get_cached_trees (heap_of_levels [0, 1, 2, 1, 0])
          \<lparr>query = None, items = [0, 1, 2, 3, 4]\<rparr> = Inr (h', [0, 4])"
  by (simp add: pass_simps heap_of_levels_def mk_node_def)

theorem parent_one_level_up_witness:
  "steps_ok (map (\<lambda>n. level (heap_of_levels [0, 1, 2, 1, 0] n)) [0, 1, 2, 3, 4]) \<and>
   (\<exists>h'. get_cached_trees (heap_of_levels [0, 1, 2, 1, 0])
           \<lparr>query = None, items = [0, 1, 2, 3, 4]\<rparr> = Inr (h', [0, 4]) \<and>
         list_all (\<lambda>n. n \<in> set [0, 4] \<or> linked_one_up h' n) [0, 1, 2, 3, 4])"
proof -
  let ?h = "heap_of_levels [0, 1, 2, 1, 0]"
  let ?qs = "\<lparr>query = None, items = [0, 1, 2, 3, 4]\<rparr>"
  have s: "steps_ok (map (\<lambda>n. level (?h n)) (items ?qs))"
    by (simp add: heap_of_levels_def mk_node_def)
  from pass_example obtain h' where r: "get_cached_trees ?h ?qs = Inr (h', [0, 4])" ..
  from parent_one_level_up [OF s r]
  have "list_all (\<lambda>n. n \<in> set [0, 4] \<or> linked_one_up h' n) [0, 1, 2, 3, 4]" by simp
  with s r show ?thesis by auto
qed
















text \<open>
  Why each node is listed once: the loop resets \<^verbatim>\<open>_cached_children\<close> of every
  object it meets, so a list that holds the same object twice loses the children
  collected at its first occurrence. Here node 0 occurs before and after its child 1.
\<close>

lemma aliasing_example:
  "map_sum id (\<lambda>r. (snd r, flatten 3 (fst r) (snd r)))
     (get_cached_trees (heap_of_levels [0, 1]) \<lparr>query = None, items = [0, 1, 0]\<rparr>)
   = Inr ([0, 0], Some [0, 0])"
  by (simp add: pass_simps heap_of_levels_def mk_node_def flatten_def eval_nat_numeral)

end
